theory Spec2Isabelle
  imports Main "HOL-Library.Word"
begin

unbundle bit_operations_syntax

section \<open>Values of a parsed configuration tree\<close>

text \<open>
  The comparator works on \<^verbatim>\<open>map[string]interface{}\<close> trees. A value is \<^verbatim>\<open>nil\<close>, a scalar
  (\<^verbatim>\<open>bool\<close>, \<^verbatim>\<open>int\<close>, \<^verbatim>\<open>float64\<close> or \<^verbatim>\<open>string\<close>), a slice of values or a mapping from
  string keys to values.
  A mapping is kept as a list of entries: the order of the list is the order in which one run
  of \<^verbatim>\<open>range\<close> visits the keys (Go leaves that order open), and a lookup \<^verbatim>\<open>m[key]\<close> is
  \<open>map_of m key\<close>. A Go map has each key once; \<open>uniqueKeys\<close> below says so for a tree.
  Integers are Go's \<^verbatim>\<open>int\<close> (only compared for equality here); a \<^verbatim>\<open>float64\<close> is kept as its
  64 bits, which is what its equality is defined on.
\<close>

datatype val =
    VNil
  | VBool bool
  | VInt int
  | VFloat "64 word"
  | VString string
  | VSlice "val list"
  | VMap "(string \<times> val) list"

type_synonym vmap = "(string \<times> val) list"

text \<open>The dynamic type of a value, as \<^verbatim>\<open>reflect.TypeOf\<close> returns it; \<^verbatim>\<open>nil\<close> has none.\<close>

datatype gotype = TBool | TInt | TFloat64 | TString | TSlice | TMap

fun TypeOf :: "val \<Rightarrow> gotype option" where
  "TypeOf VNil = None"
| "TypeOf (VBool b) = Some TBool"
| "TypeOf (VInt i) = Some TInt"
| "TypeOf (VFloat f) = Some TFloat64"
| "TypeOf (VString s) = Some TString"
| "TypeOf (VSlice xs) = Some TSlice"
| "TypeOf (VMap m) = Some TMap"

text \<open>
  \<^verbatim>\<open>==\<close> on \<^verbatim>\<open>float64\<close>: a NaN (exponent bits all set, fraction not zero) equals nothing,
  and the two zeros are equal; otherwise the bits decide.
\<close>

definition isNaN :: "64 word \<Rightarrow> bool" where
  "isNaN w = (w AND 0x7FF0000000000000 = 0x7FF0000000000000 \<and> w AND 0x000FFFFFFFFFFFFF \<noteq> 0)"

definition float_eq :: "64 word \<Rightarrow> 64 word \<Rightarrow> bool" where
  "float_eq a b =
     (\<not> isNaN a \<and> \<not> isNaN b \<and>
      (a = b \<or> (a AND 0x7FFFFFFFFFFFFFFF = 0 \<and> b AND 0x7FFFFFFFFFFFFFFF = 0)))"

text \<open>
  \<^verbatim>\<open>reflect.DeepEqual\<close> on values that share no storage (the trees come from separate
  loads): values of different dynamic types are never equal; slices are equal when they have
  the same length and equal elements; mappings are equal when they have the same number of
  entries and every key of the first maps to an equal value in the second.
\<close>

function DeepEqual :: "val \<Rightarrow> val \<Rightarrow> bool" where
  "DeepEqual VNil y = (y = VNil)"
| "DeepEqual (VBool a) y = (case y of VBool b \<Rightarrow> a = b | _ \<Rightarrow> False)"
| "DeepEqual (VInt a) y = (case y of VInt b \<Rightarrow> a = b | _ \<Rightarrow> False)"
| "DeepEqual (VFloat a) y = (case y of VFloat b \<Rightarrow> float_eq a b | _ \<Rightarrow> False)"
| "DeepEqual (VString a) y = (case y of VString b \<Rightarrow> a = b | _ \<Rightarrow> False)"
| "DeepEqual (VSlice xs) y =
     (case y of
        VSlice ys \<Rightarrow>
          length xs = length ys \<and> list_all (\<lambda>(a, b). DeepEqual a b) (zip xs ys)
      | _ \<Rightarrow> False)"
| "DeepEqual (VMap m1) y =
     (case y of
        VMap m2 \<Rightarrow>
          length m1 = length m2 \<and>
          list_all (\<lambda>(k, v1). case map_of m2 k of None \<Rightarrow> False | Some v2 \<Rightarrow> DeepEqual v1 v2) m1
      | _ \<Rightarrow> False)"
  by pat_completeness auto
termination
proof -
  have slice_elem: "size a < Suc (size_list size xs)" if "a \<in> set xs"
    for a :: val and xs
    using that by (induction xs) auto
  have map_elem: "size v < Suc (size_list (size_prod (\<lambda>_. 0) size) m)" if "(k, v) \<in> set m"
    for k :: string and v :: val and m
    using that by (induction m) auto
  show ?thesis
    by (relation "measure (\<lambda>(x, y). size x)")
       (auto dest: set_zip_leftD slice_elem map_elem)
qed

section \<open>Ignore matcher\<close>

text \<open>\<^verbatim>\<open>strings.HasPrefix\<close> and the loop of \<^verbatim>\<open>shouldIgnore\<close> over the ignore list.\<close>

definition HasPrefix :: "string \<Rightarrow> string \<Rightarrow> bool" where
  "HasPrefix s p = (length p \<le> length s \<and> take (length p) s = p)"

fun shouldIgnore :: "string \<Rightarrow> string list \<Rightarrow> bool" where
  "shouldIgnore path [] = False"
| "shouldIgnore path (ignore # rest) =
     (if HasPrefix path ignore then True else shouldIgnore path rest)"

section \<open>Issues and the comparator's state\<close>

text \<open>
  The comparator writes one line per issue to standard output and sets \<^verbatim>\<open>*issuesFound\<close>.
  An \<open>issue\<close> stands for a printed line, with the arguments of its \<^verbatim>\<open>Printf\<close>: the full key,
  and the value (for \<^verbatim>\<open>%v\<close>) or the dynamic types (for \<^verbatim>\<open>%T\<close>; \<open>None\<close> is the type of
  \<^verbatim>\<open>nil\<close>). The state threaded through a run is the flag behind the pointer and the lines
  printed so far.
\<close>

datatype issue =
    UnexpectedKey string
  | ExpectedMap string "gotype option"
  | RedundantValue string val
  | TypeMismatch string "gotype option" "gotype option"

record state =
  issuesFound :: bool
  printed :: "issue list"

definition report :: "issue \<Rightarrow> state \<Rightarrow> state" where
  "report i st = st\<lparr>printed := printed st @ [i], issuesFound := True\<rparr>"

definition fullKeyOf :: "string \<Rightarrow> string \<Rightarrow> string" where
  "fullKeyOf prefix key = (if prefix \<noteq> '''' then prefix @ ''.'' @ key else key)"

section \<open>The comparator\<close>

text \<open>
  \<^verbatim>\<open>validateChartValues\<close> of \<^verbatim>\<open>cmd/main.go\<close>. The \<^verbatim>\<open>for ... range providedValues\<close> loop is the
  recursion of \<open>validateChartValues\<close> over the entries, and \<open>validateKey\<close> is the loop body
  for one entry; each \<^verbatim>\<open>continue\<close> ends the body with the state as it is. The overrides
  tree may be \<^verbatim>\<open>nil\<close> (\<open>None\<close>); a recursive call always gets a mapping, maybe empty. The
  report of an unexpected key is commented out in the source, so the body has none.
\<close>

function validateChartValues ::
    "vmap \<Rightarrow> vmap \<Rightarrow> vmap option \<Rightarrow> string \<Rightarrow> state \<Rightarrow> string list \<Rightarrow> state"
  and validateKey ::
    "vmap \<Rightarrow> string \<times> val \<Rightarrow> vmap option \<Rightarrow> string \<Rightarrow> state \<Rightarrow> string list \<Rightarrow> state"
where
  "validateChartValues defaultValues [] overridesValues prefix st ignoreList = st"
| "validateChartValues defaultValues (kv # rest) overridesValues prefix st ignoreList =
     validateChartValues defaultValues rest overridesValues prefix
       (validateKey defaultValues kv overridesValues prefix st ignoreList) ignoreList"
| "validateKey defaultValues (key, providedValue) overridesValues prefix st ignoreList =
     (let fullKey = fullKeyOf prefix key in
      if shouldIgnore fullKey ignoreList then st
      else
        case map_of defaultValues key of
          None \<Rightarrow> st
        | Some defaultValue \<Rightarrow>
            (case defaultValue of
               VMap defaultMap \<Rightarrow>
                 (case providedValue of
                    VMap providedMap \<Rightarrow>
                      (let overridesMap =
                         (case overridesValues of
                            None \<Rightarrow> []
                          | Some ov \<Rightarrow>
                              (case map_of ov key of
                                 Some (VMap overridesSubMap) \<Rightarrow> overridesSubMap
                               | _ \<Rightarrow> []))
                       in validateChartValues defaultMap providedMap (Some overridesMap)
                            fullKey st ignoreList)
                  | _ \<Rightarrow> report (ExpectedMap fullKey (TypeOf providedValue)) st)
             | _ \<Rightarrow>
                 if DeepEqual defaultValue providedValue then
                   (if (case overridesValues of
                          None \<Rightarrow> False
                        | Some ov \<Rightarrow>
                            (case map_of ov key of
                               None \<Rightarrow> False
                             | Some overrideValue \<Rightarrow> \<not> DeepEqual overrideValue providedValue))
                    then st
                    else report (RedundantValue fullKey providedValue) st)
                 else if defaultValue \<noteq> VNil \<and> providedValue \<noteq> VNil then
                   (if TypeOf defaultValue \<noteq> TypeOf providedValue
                    then report (TypeMismatch fullKey (TypeOf defaultValue) (TypeOf providedValue)) st
                    else st)
                 else st))"
  by pat_completeness auto
termination
  by (relation "measure (\<lambda>x. case x of
        Inl (d, p, r) \<Rightarrow> size_list (size_prod (\<lambda>_. 0) size) p
      | Inr (d, kv, r) \<Rightarrow> size (snd kv))") auto

section \<open>The two-tree comparator\<close>

text \<open>
  The version of \<^verbatim>\<open>validateChartValues\<close> that takes no overrides tree. It reports a key of
  the provided tree that the defaults lack, and every value equal to its default.
\<close>

function validateChartValues_base ::
    "vmap \<Rightarrow> vmap \<Rightarrow> string \<Rightarrow> state \<Rightarrow> string list \<Rightarrow> state"
  and validateKey_base ::
    "vmap \<Rightarrow> string \<times> val \<Rightarrow> string \<Rightarrow> state \<Rightarrow> string list \<Rightarrow> state"
where
  "validateChartValues_base defaultValues [] prefix st ignoreList = st"
| "validateChartValues_base defaultValues (kv # rest) prefix st ignoreList =
     validateChartValues_base defaultValues rest prefix
       (validateKey_base defaultValues kv prefix st ignoreList) ignoreList"
| "validateKey_base defaultValues (key, providedValue) prefix st ignoreList =
     (let fullKey = fullKeyOf prefix key in
      if shouldIgnore fullKey ignoreList then st
      else
        case map_of defaultValues key of
          None \<Rightarrow> report (UnexpectedKey fullKey) st
        | Some defaultValue \<Rightarrow>
            (case defaultValue of
               VMap defaultMap \<Rightarrow>
                 (case providedValue of
                    VMap providedMap \<Rightarrow>
                      validateChartValues_base defaultMap providedMap fullKey st ignoreList
                  | _ \<Rightarrow> report (ExpectedMap fullKey (TypeOf providedValue)) st)
             | _ \<Rightarrow>
                 if DeepEqual defaultValue providedValue then
                   report (RedundantValue fullKey providedValue) st
                 else if defaultValue \<noteq> VNil \<and> providedValue \<noteq> VNil then
                   (if TypeOf defaultValue \<noteq> TypeOf providedValue
                    then report (TypeMismatch fullKey (TypeOf defaultValue) (TypeOf providedValue)) st
                    else st)
                 else st))"
  by pat_completeness auto
termination
  by (relation "measure (\<lambda>x. case x of
        Inl (d, p, r) \<Rightarrow> size_list (size_prod (\<lambda>_. 0) size) p
      | Inr (d, kv, r) \<Rightarrow> size (snd kv))") auto

section \<open>Notions used to state the properties\<close>

text \<open>
  \<open>fresh\<close> is the state a caller starts from and \<open>emit\<close> appends a list of issues to a state.
  \<open>issuesOf\<close> and \<open>keyIssues\<close> are the issues that a run, and one pass of the loop body,
  print from the fresh state. \<open>overridesFor\<close> is the overrides mapping handed to a recursive
  call, and \<open>resetByOverride\<close> the test that keeps a redundant value from being reported.
\<close>

definition fresh :: state where
  "fresh = \<lparr>issuesFound = False, printed = []\<rparr>"

definition emit :: "issue list \<Rightarrow> state \<Rightarrow> state" where
  "emit is st = st\<lparr>printed := printed st @ is, issuesFound := (issuesFound st \<or> is \<noteq> [])\<rparr>"

definition overridesFor :: "vmap option \<Rightarrow> string \<Rightarrow> vmap" where
  "overridesFor ovr key =
     (case ovr of
        None \<Rightarrow> []
      | Some ov \<Rightarrow> (case map_of ov key of Some (VMap sub) \<Rightarrow> sub | _ \<Rightarrow> []))"

definition resetByOverride :: "vmap option \<Rightarrow> string \<Rightarrow> val \<Rightarrow> bool" where
  "resetByOverride ovr key pv =
     (case ovr of
        None \<Rightarrow> False
      | Some ov \<Rightarrow> (case map_of ov key of None \<Rightarrow> False | Some v \<Rightarrow> \<not> DeepEqual v pv))"

definition keyIssues :: "vmap \<Rightarrow> string \<times> val \<Rightarrow> vmap option \<Rightarrow> string \<Rightarrow> string list \<Rightarrow> issue list" where
  "keyIssues D kv ovr pre ign = printed (validateKey D kv ovr pre fresh ign)"

definition issuesOf :: "vmap \<Rightarrow> vmap \<Rightarrow> vmap option \<Rightarrow> string \<Rightarrow> string list \<Rightarrow> issue list" where
  "issuesOf D P ovr pre ign = printed (validateChartValues D P ovr pre fresh ign)"

fun issuePath :: "issue \<Rightarrow> string" where
  "issuePath (UnexpectedKey p) = p"
| "issuePath (ExpectedMap p t) = p"
| "issuePath (RedundantValue p v) = p"
| "issuePath (TypeMismatch p t u) = p"

fun isRedundant :: "issue \<Rightarrow> bool" where
  "isRedundant (RedundantValue p v) = True"
| "isRedundant _ = False"

fun isMap :: "val \<Rightarrow> bool" where
  "isMap (VMap m) = True"
| "isMap _ = False"


text \<open>Every mapping in the value has each key once.\<close>

function uniqueKeys :: "val \<Rightarrow> bool" where
  "uniqueKeys (VMap m) = (distinct (map fst m) \<and> list_all (\<lambda>(k, v). uniqueKeys v) m)"
| "uniqueKeys (VSlice xs) = list_all uniqueKeys xs"
| "uniqueKeys VNil = True"
| "uniqueKeys (VBool b) = True"
| "uniqueKeys (VInt i) = True"
| "uniqueKeys (VFloat f) = True"
| "uniqueKeys (VString s) = True"
  by pat_completeness auto
termination
proof -
  have slice_elem: "size a < Suc (size_list size xs)" if "a \<in> set xs"
    for a :: val and xs
    using that by (induction xs) auto
  have map_elem: "size v < Suc (size_list (size_prod (\<lambda>_. 0) size) m)" if "(k, v) \<in> set m"
    for k :: string and v :: val and m
    using that by (induction m) auto
  show ?thesis
    by (relation "measure size") (auto dest: slice_elem map_elem)
qed

text \<open>
  \<open>restrictTo D P\<close> is the defaults tree \<open>D\<close> without the keys that \<open>P\<close> lacks, at every
  level: a key of \<open>D\<close> that \<open>P\<close> lacks is dropped; where both trees have a mapping under a
  key, the default mapping is restricted in turn; and where \<open>D\<close> has a mapping under a key
  and \<open>P\<close> has a value that is not a mapping, the default mapping is emptied, since \<open>P\<close> has
  none of its keys. \<open>onlyKeysOf D P\<close> says that \<open>D\<close> has no key, at any level, that \<open>P\<close>
  lacks at that place.
\<close>

fun restrictTo :: "vmap \<Rightarrow> vmap \<Rightarrow> vmap" where
  "restrictTo [] P = []"
| "restrictTo ((k, dv) # D) P =
     (case map_of P k of
        None \<Rightarrow> restrictTo D P
      | Some pv \<Rightarrow>
          (k, case dv of
                VMap dm \<Rightarrow> (case pv of VMap pm \<Rightarrow> VMap (restrictTo dm pm) | _ \<Rightarrow> VMap [])
              | _ \<Rightarrow> dv) # restrictTo D P)"

fun onlyKeysOf :: "vmap \<Rightarrow> vmap \<Rightarrow> bool" where
  "onlyKeysOf [] P = True"
| "onlyKeysOf ((k, dv) # D) P =
     ((case map_of P k of
         None \<Rightarrow> False
       | Some pv \<Rightarrow>
           (case dv of
              VMap dm \<Rightarrow> (case pv of VMap pm \<Rightarrow> onlyKeysOf dm pm | _ \<Rightarrow> dm = [])
            | _ \<Rightarrow> True))
      \<and> onlyKeysOf D P)"

text \<open>
  \<open>redundantLeaves P pre ign\<close> lists, in the order of the walk, a Redundant-value issue for
  every key of \<open>P\<close>, at every level of nesting, whose value is not a mapping and whose full
  path is not ignored (a key under an ignored path has an ignored path itself).
\<close>

fun redundantLeaves :: "vmap \<Rightarrow> string \<Rightarrow> string list \<Rightarrow> issue list" where
  "redundantLeaves [] pre ign = []"
| "redundantLeaves ((k, pv) # P) pre ign =
     (if shouldIgnore (fullKeyOf pre k) ign then []
      else (case pv of
              VMap pm \<Rightarrow> redundantLeaves pm (fullKeyOf pre k) ign
            | _ \<Rightarrow> [RedundantValue (fullKeyOf pre k) pv]))
     @ redundantLeaves P pre ign"


text \<open>
  \<open>reordered P P'\<close>: the tree \<open>P'\<close> lists the entries of \<open>P\<close> in another order, here and in
  the mappings nested directly under its keys.
\<close>

inductive reordered :: "vmap \<Rightarrow> vmap \<Rightarrow> bool" where
  same: "reordered P P"
| swap: "reordered (x # y # P) (y # x # P)"
| cons: "reordered P P' \<Longrightarrow> reordered (kv # P) (kv # P')"
| nest: "reordered m m' \<Longrightarrow> reordered ((k, VMap m) # P) ((k, VMap m') # P)"
| trans: "reordered P Q \<Longrightarrow> reordered Q R \<Longrightarrow> reordered P R"

section \<open>Properties\<close>

declare validateKey.simps [simp del]
declare validateKey_base.simps [simp del]

lemma emit_Nil: "emit [] st = st"
  by (simp add: emit_def)

lemma emit_emit: "emit js (emit is st) = emit (is @ js) st"
  by (simp add: emit_def)

lemma report_emit: "report i st = emit [i] st"
  by (simp add: report_def emit_def)

lemma printed_emit: "printed (emit is st) = printed st @ is"
  by (simp add: emit_def)

lemma issuesFound_emit: "issuesFound (emit is st) = (issuesFound st \<or> is \<noteq> [])"
  by (simp add: emit_def)

lemma printed_fresh: "printed fresh = []"
  by (simp add: fresh_def)

lemma frame_aux:
  "\<forall>s. validateChartValues D P ovr pre s ign = emit (printed (validateChartValues D P ovr pre fresh ign)) s"
  "\<forall>s. validateKey D kv ovr pre s ign = emit (printed (validateKey D kv ovr pre fresh ign)) s"
proof (induction D P ovr pre "st::state" ign and D kv ovr pre "st::state" ign
       rule: validateChartValues_validateKey.induct)
  case (1 D ovr pre st ign)
  show ?case by (simp add: emit_Nil printed_fresh)
next
  case (2 D kv rest ovr pre st ign)
  define K where "K = printed (validateKey D kv ovr pre fresh ign)"
  define R where "R = printed (validateChartValues D rest ovr pre fresh ign)"
  have k: "validateKey D kv ovr pre s ign = emit K s" for s
    using "2.IH"(1) unfolding K_def by blast
  have r: "validateChartValues D rest ovr pre s ign = emit R s" for s
    using "2.IH"(2) unfolding R_def by blast
  show ?case
  proof
    fix s
    have "validateChartValues D (kv # rest) ovr pre s ign = emit R (emit K s)" for s
      by (simp add: k r)
    then show "validateChartValues D (kv # rest) ovr pre s ign =
        emit (printed (validateChartValues D (kv # rest) ovr pre fresh ign)) s"
      by (simp add: emit_emit printed_emit printed_fresh)
  qed
next
  case (3 D key pv ovr pre st ign)
  show ?case
  proof
    fix s
    show "validateKey D (key, pv) ovr pre s ign =
        emit (printed (validateKey D (key, pv) ovr pre fresh ign)) s"
    proof (cases "shouldIgnore (fullKeyOf pre key) ign")
      case True
      then show ?thesis
        by (simp add: validateKey.simps Let_def emit_Nil printed_fresh)
    next
      case False
      show ?thesis
      proof (cases "map_of D key")
        case None
        with False show ?thesis
          by (simp add: validateKey.simps Let_def emit_Nil printed_fresh)
      next
        case (Some dv)
        show ?thesis
        proof (cases "isMap dv \<and> isMap pv")
          case True
          then obtain dm pm where dv: "dv = VMap dm" and pv: "pv = VMap pm"
            by (cases dv; cases pv) auto
          define om where "om = (case ovr of None \<Rightarrow> []
            | Some ov \<Rightarrow> (case map_of ov key of None \<Rightarrow> []
                | Some (VMap overridesSubMap) \<Rightarrow> overridesSubMap
                | Some _ \<Rightarrow> []))"
          define N where "N = printed (validateChartValues dm pm (Some om) (fullKeyOf pre key) fresh ign)"
          have ih: "validateChartValues dm pm (Some om) (fullKeyOf pre key) s ign = emit N s" for s
            using "3.IH" [OF refl False Some dv pv om_def] unfolding N_def by blast
          have "validateKey D (key, pv) ovr pre s ign = emit N s" for s
            using False Some dv pv ih
            by (simp add: validateKey.simps Let_def om_def)
          then show ?thesis
            by (simp add: printed_emit printed_fresh)
        next
          case nm: False
          have "\<exists>is. \<forall>s. validateKey D (key, pv) ovr pre s ign = emit is s"
            using False Some nm
            by (cases dv; cases pv)
               (auto simp: validateKey.simps Let_def report_emit intro: exI [of _ "[]"] emit_Nil [symmetric]
                     split: option.splits)
          then obtain js where "validateKey D (key, pv) ovr pre s ign = emit js s" for s
            by blast
          then show ?thesis
            by (simp add: printed_emit printed_fresh)
        qed
      qed
    qed
  qed
qed


lemma validate_emit:
  "validateChartValues D P ovr pre st ign = emit (issuesOf D P ovr pre ign) st"
  unfolding issuesOf_def using frame_aux(1) [of D P ovr pre ign] by blast

lemma key_emit:
  "validateKey D kv ovr pre st ign = emit (keyIssues D kv ovr pre ign) st"
  unfolding keyIssues_def using frame_aux(2) [of D kv ovr pre ign] by blast

lemma issuesOf_Nil: "issuesOf D [] ovr pre ign = []"
  by (simp add: issuesOf_def printed_fresh)

lemma issuesOf_Cons:
  "issuesOf D (kv # rest) ovr pre ign = keyIssues D kv ovr pre ign @ issuesOf D rest ovr pre ign"
proof -
  have "issuesOf D (kv # rest) ovr pre ign =
      printed (validateChartValues D rest ovr pre (validateKey D kv ovr pre fresh ign) ign)"
    by (simp add: issuesOf_def)
  also have "\<dots> = printed (emit (issuesOf D rest ovr pre ign) (emit (keyIssues D kv ovr pre ign) fresh))"
    by (simp only: validate_emit key_emit)
  finally show ?thesis
    by (simp add: printed_emit printed_fresh)
qed

lemma issuesOf_append:
  "issuesOf D (P1 @ P2) ovr pre ign = issuesOf D P1 ovr pre ign @ issuesOf D P2 ovr pre ign"
  by (induction P1) (simp_all add: issuesOf_Nil issuesOf_Cons)

lemma keyIssues_eq:
  "keyIssues D (key, pv) ovr pre ign =
     (if shouldIgnore (fullKeyOf pre key) ign then []
      else case map_of D key of
        None \<Rightarrow> []
      | Some dv \<Rightarrow>
          if isMap dv then
            (case pv of
               VMap pm \<Rightarrow> (case dv of VMap dm \<Rightarrow>
                  issuesOf dm pm (Some (overridesFor ovr key)) (fullKeyOf pre key) ign | _ \<Rightarrow> [])
             | _ \<Rightarrow> [ExpectedMap (fullKeyOf pre key) (TypeOf pv)])
          else if DeepEqual dv pv then
            (if resetByOverride ovr key pv then []
             else [RedundantValue (fullKeyOf pre key) pv])
          else if dv \<noteq> VNil \<and> pv \<noteq> VNil \<and> TypeOf dv \<noteq> TypeOf pv then
            [TypeMismatch (fullKeyOf pre key) (TypeOf dv) (TypeOf pv)]
          else [])"
proof (cases "shouldIgnore (fullKeyOf pre key) ign")
  case True
  then show ?thesis
    by (simp add: keyIssues_def validateKey.simps Let_def printed_fresh)
next
  case False
  show ?thesis
  proof (cases "map_of D key")
    case None
    with False show ?thesis
      by (simp add: keyIssues_def validateKey.simps Let_def printed_fresh)
  next
    case (Some dv)
    show ?thesis
    proof (cases "isMap dv")
      case True
      then obtain dm where dv: "dv = VMap dm" by (cases dv) auto
      show ?thesis
        using False Some dv
        by (cases pv)
           (simp_all add: keyIssues_def validateKey.simps Let_def printed_fresh report_def
              issuesOf_def overridesFor_def)
    next
      case nm: False
      have split: "validateKey D (key, pv) ovr pre fresh ign =
          (if DeepEqual dv pv then
             (if resetByOverride ovr key pv then fresh
              else report (RedundantValue (fullKeyOf pre key) pv) fresh)
           else if dv \<noteq> VNil \<and> pv \<noteq> VNil then
             (if TypeOf dv \<noteq> TypeOf pv
              then report (TypeMismatch (fullKeyOf pre key) (TypeOf dv) (TypeOf pv)) fresh
              else fresh)
           else fresh)"
        using False Some nm
        by (cases dv) (simp_all add: validateKey.simps Let_def resetByOverride_def del: DeepEqual.simps)
      show ?thesis
        using False Some nm
        by (simp add: keyIssues_def split printed_fresh report_def)
    qed
  qed
qed


declare DeepEqual.simps [simp del]

lemma keyIssues_cases [case_names Skip Recurse ExpMap Redundant Mismatch]:
  obtains
    (Skip) "keyIssues D (key, pv) ovr pre ign = []"
  | (Recurse) dm pm where "\<not> shouldIgnore (fullKeyOf pre key) ign"
      "map_of D key = Some (VMap dm)" "pv = VMap pm"
      "keyIssues D (key, pv) ovr pre ign =
         issuesOf dm pm (Some (overridesFor ovr key)) (fullKeyOf pre key) ign"
  | (ExpMap) dm where "\<not> shouldIgnore (fullKeyOf pre key) ign"
      "map_of D key = Some (VMap dm)" "\<not> isMap pv"
      "keyIssues D (key, pv) ovr pre ign = [ExpectedMap (fullKeyOf pre key) (TypeOf pv)]"
  | (Redundant) dv where "\<not> shouldIgnore (fullKeyOf pre key) ign"
      "map_of D key = Some dv" "\<not> isMap dv" "DeepEqual dv pv" "\<not> resetByOverride ovr key pv"
      "keyIssues D (key, pv) ovr pre ign = [RedundantValue (fullKeyOf pre key) pv]"
  | (Mismatch) dv where "\<not> shouldIgnore (fullKeyOf pre key) ign"
      "map_of D key = Some dv" "\<not> isMap dv" "\<not> DeepEqual dv pv" "dv \<noteq> VNil" "pv \<noteq> VNil"
      "TypeOf dv \<noteq> TypeOf pv"
      "keyIssues D (key, pv) ovr pre ign = [TypeMismatch (fullKeyOf pre key) (TypeOf dv) (TypeOf pv)]"
proof (cases "shouldIgnore (fullKeyOf pre key) ign")
  case True
  then show ?thesis using Skip by (simp add: keyIssues_eq)
next
  case ni: False
  show ?thesis
  proof (cases "map_of D key")
    case None
    with ni show ?thesis using Skip by (simp add: keyIssues_eq)
  next
    case (Some dv)
    show ?thesis
    proof (cases "isMap dv")
      case True
      then obtain dm where dv: "dv = VMap dm" by (cases dv) auto
      show ?thesis
      proof (cases "isMap pv")
        case True
        then obtain pm where pv: "pv = VMap pm" by (cases pv) auto
        show ?thesis
          using ni Some dv pv by (intro Recurse [of dm pm]) (simp_all add: keyIssues_eq)
      next
        case False
        then show ?thesis
          using ni Some dv
          by (intro ExpMap [of dm]) (cases pv; simp add: keyIssues_eq)+
      qed
    next
      case nm: False
      show ?thesis
      proof (cases "DeepEqual dv pv")
        case True
        show ?thesis
        proof (cases "resetByOverride ovr key pv")
          case True
          then show ?thesis
            using ni Some nm \<open>DeepEqual dv pv\<close> by (intro Skip) (simp add: keyIssues_eq)
        next
          case False
          then show ?thesis
            using ni Some nm \<open>DeepEqual dv pv\<close>
            by (intro Redundant [of dv]) (simp_all add: keyIssues_eq)
        qed
      next
        case ne: False
        show ?thesis
        proof (cases "dv \<noteq> VNil \<and> pv \<noteq> VNil \<and> TypeOf dv \<noteq> TypeOf pv")
          case True
          then show ?thesis
            using ni Some nm ne by (intro Mismatch [of dv]) (simp_all add: keyIssues_eq)
        next
          case False
          then show ?thesis
            using ni Some nm ne by (intro Skip) (auto simp add: keyIssues_eq)
        qed
      qed
    qed
  qed
qed

lemma issues_induct [case_names Nil Cons Key]:
  assumes nil: "\<And>D ovr pre ign. P D [] ovr pre ign"
    and cons: "\<And>D kv rest ovr pre ign.
        Q D kv ovr pre ign \<Longrightarrow> P D rest ovr pre ign \<Longrightarrow> P D (kv # rest) ovr pre ign"
    and key: "\<And>D key pv ovr pre ign.
        (\<And>dm pm. \<not> shouldIgnore (fullKeyOf pre key) ign \<Longrightarrow> map_of D key = Some (VMap dm) \<Longrightarrow>
            pv = VMap pm \<Longrightarrow> P dm pm (Some (overridesFor ovr key)) (fullKeyOf pre key) ign) \<Longrightarrow>
        Q D (key, pv) ovr pre ign"
  shows "P D Pv ovr pre ign" and "Q D kv ovr pre ign"
proof -
  let ?P = "\<lambda>D Pv ovr pre (st::state) ign. P D Pv ovr pre ign"
  let ?Q = "\<lambda>D kv ovr pre (st::state) ign. Q D kv ovr pre ign"
  have "?P D Pv ovr pre fresh ign" and "?Q D kv ovr pre fresh ign"
  proof (induct rule: validateChartValues_validateKey.induct [where P = ?P and Q = ?Q])
    case (1 D ovr pre st ign)
    show ?case by (rule nil)
  next
    case (2 D kv rest ovr pre st ign)
    then show ?case by (intro cons)
  next
    case (3 D key pv ovr pre st ign)
    show ?case
    proof (rule key)
      fix dm pm
      assume "\<not> shouldIgnore (fullKeyOf pre key) ign" "map_of D key = Some (VMap dm)" "pv = VMap pm"
      then show "P dm pm (Some (overridesFor ovr key)) (fullKeyOf pre key) ign"
        using 3 [OF refl, of "VMap dm" dm pm] by (simp add: overridesFor_def)
    qed
  qed
  then show "P D Pv ovr pre ign" and "Q D kv ovr pre ign" .
qed




lemma shouldIgnore_iff: "shouldIgnore path ign \<longleftrightarrow> (\<exists>e \<in> set ign. \<exists>rest. path = e @ rest)"
proof (induction ign)
  case Nil
  show ?case by simp
next
  case (Cons e ign)
  have "HasPrefix path e \<longleftrightarrow> (\<exists>rest. path = e @ rest)"
  proof
    assume "HasPrefix path e"
    then have "path = e @ drop (length e) path"
      by (metis HasPrefix_def append_take_drop_id)
    then show "\<exists>rest. path = e @ rest" ..
  next
    assume "\<exists>rest. path = e @ rest"
    then show "HasPrefix path e" by (auto simp: HasPrefix_def)
  qed
  with Cons show ?case by auto
qed

lemma issues_not_ignored_aux:
  "\<forall>i \<in> set (issuesOf D P ovr pre ign). \<not> shouldIgnore (issuePath i) ign"
  "\<forall>i \<in> set (keyIssues D kv ovr pre ign). \<not> shouldIgnore (issuePath i) ign"
proof (induction D P ovr pre ign and D kv ovr pre ign rule: issues_induct)
  case (Nil D ovr pre ign)
  show ?case by (simp add: issuesOf_Nil)
next
  case (Cons D kv rest ovr pre ign)
  then show ?case by (simp add: issuesOf_Cons ball_Un)
next
  case (Key D key pv ovr pre ign)
  show ?case
  proof (cases D key pv ovr pre ign rule: keyIssues_cases)
    case Skip
    then show ?thesis by simp
  next
    case (Recurse dm pm)
    with Key [OF Recurse(1-3)] show ?thesis by simp
  next
    case (ExpMap dm)
    then show ?thesis by simp
  next
    case (Redundant dv)
    then show ?thesis by simp
  next
    case (Mismatch dv)
    then show ?thesis by simp
  qed
qed


lemma validate_split:
  "validateChartValues D (P1 @ kv # P2) ovr pre st ign =
     validateChartValues D P2 ovr pre
       (validateKey D kv ovr pre (validateChartValues D P1 ovr pre st ign) ign) ign"
  by (induction P1 arbitrary: st) simp_all

lemma validate_base_split:
  "validateChartValues_base D (P1 @ kv # P2) pre st ign =
     validateChartValues_base D P2 pre
       (validateKey_base D kv pre (validateChartValues_base D P1 pre st ign) ign) ign"
  by (induction P1 arbitrary: st) simp_all

lemma resetByOverride_iff:
  "resetByOverride ovr k pv \<longleftrightarrow> (\<exists>m ov. ovr = Some m \<and> map_of m k = Some ov \<and> \<not> DeepEqual ov pv)"
  by (auto simp: resetByOverride_def split: option.splits)

lemma key_scalar:
  assumes "\<not> shouldIgnore (fullKeyOf pre k) ign" and "map_of D k = Some dv" and "\<not> isMap dv"
  shows "validateKey D (k, pv) ovr pre st ign =
    (if DeepEqual dv pv then
       (if resetByOverride ovr k pv then st
        else report (RedundantValue (fullKeyOf pre k) pv) st)
     else if dv \<noteq> VNil \<and> pv \<noteq> VNil \<and> TypeOf dv \<noteq> TypeOf pv
       then report (TypeMismatch (fullKeyOf pre k) (TypeOf dv) (TypeOf pv)) st
     else st)"
  using assms
  by (cases dv) (simp_all add: validateKey.simps Let_def resetByOverride_def)

text \<open>
  C1. For a key \<open>k\<close> whose full path is not ignored, whose default value \<open>dv\<close> is not a
  mapping and whose provided value \<open>pv\<close> deep-equals \<open>dv\<close>, the loop body reports a
  Redundant-value issue for \<open>k\<close> unless an overrides tree was supplied, \<open>k\<close> exists in it and
  the override's value differs from \<open>pv\<close>; in that one case it reports nothing. When the
  override key is absent or equals \<open>pv\<close>, the issue is still reported. The second conjunct
  says the same for the key at any position of the provided tree.
\<close>
theorem redundant_unless_reset_by_override:
  assumes "\<not> shouldIgnore (fullKeyOf pre k) ign"
    and "map_of D k = Some dv" and "\<not> isMap dv" and "DeepEqual dv pv"
  shows "validateKey D (k, pv) ovr pre st ign =
      (if (\<exists>m ov. ovr = Some m \<and> map_of m k = Some ov \<and> \<not> DeepEqual ov pv) then st
       else report (RedundantValue (fullKeyOf pre k) pv) st)
    \<and> validateChartValues D (P1 @ (k, pv) # P2) ovr pre st ign =
      validateChartValues D P2 ovr pre
        (if (\<exists>m ov. ovr = Some m \<and> map_of m k = Some ov \<and> \<not> DeepEqual ov pv)
         then validateChartValues D P1 ovr pre st ign
         else report (RedundantValue (fullKeyOf pre k) pv) (validateChartValues D P1 ovr pre st ign))
        ign"
proof -
  have "validateKey D (k, pv) ovr pre s ign =
      (if (\<exists>m ov. ovr = Some m \<and> map_of m k = Some ov \<and> \<not> DeepEqual ov pv) then s
       else report (RedundantValue (fullKeyOf pre k) pv) s)" for s
    using assms by (simp add: key_scalar resetByOverride_iff)
  then show ?thesis
    by (simp add: validate_split)
qed


theorem redundant_unless_reset_by_override_witness:
  "\<not> shouldIgnore (fullKeyOf ''tempo'' ''enabled'') []
   \<and> map_of [(''enabled'', VBool True)] ''enabled'' = Some (VBool True)
   \<and> \<not> isMap (VBool True)
   \<and> DeepEqual (VBool True) (VBool True)
   \<and> validateKey [(''enabled'', VBool True)] (''enabled'', VBool True)
        (Some [(''enabled'', VBool False)]) ''tempo'' \<lparr>issuesFound = False, printed = []\<rparr> []
      = \<lparr>issuesFound = False, printed = []\<rparr>
   \<and> validateKey [(''enabled'', VBool True)] (''enabled'', VBool True)
        (Some [(''other'', VBool False)]) ''tempo'' \<lparr>issuesFound = False, printed = []\<rparr> []
      = \<lparr>issuesFound = True, printed = [RedundantValue ''tempo.enabled'' (VBool True)]\<rparr>"
proof -
  have h1: "\<not> shouldIgnore (fullKeyOf ''tempo'' ''enabled'') []" by simp
  have h2: "map_of [(''enabled'', VBool True)] ''enabled'' = Some (VBool True)" by simp
  have h3: "\<not> isMap (VBool True)" by simp
  have h4: "DeepEqual (VBool True) (VBool True)" by (simp add: DeepEqual.simps)
  note t = redundant_unless_reset_by_override [OF h1 h2 h3 h4, where ?P1.0 = "[]" and ?P2.0 = "[]"
      and st = "\<lparr>issuesFound = False, printed = []\<rparr>"]
  show ?thesis
    using h1 h2 h3 h4 t [of "Some [(''enabled'', VBool False)]"] t [of "Some [(''other'', VBool False)]"]
    by (simp add: DeepEqual.simps report_def fullKeyOf_def)
qed

text \<open>
  C5. For a non-ignored key \<open>k\<close> whose default value is a mapping \<open>dm\<close>: when the provided
  value is a mapping \<open>pm\<close> too, the loop body is exactly the recursive call on \<open>dm\<close> and \<open>pm\<close>
  with the full path of \<open>k\<close> (the prefix, a dot and the key, or the key alone under the empty
  prefix) as the new prefix and with the sub-mapping of the overrides tree at \<open>k\<close>, or the
  empty mapping when there is no overrides tree, no entry at \<open>k\<close>, or an entry that is not a
  mapping; when the provided value is not a mapping, the loop body only reports a
  Type-mismatch issue "expected map" with the provided value's type, and makes no
  recursive call. Both are also stated for the key at any position of the provided tree:
  the run takes up the entries before the key, then does the recursive call or the report,
  then takes up the entries after it.
\<close>
theorem map_default_recurses_or_reports:
  assumes "\<not> shouldIgnore (fullKeyOf pre k) ign"
    and "map_of D k = Some (VMap dm)"
  shows "fullKeyOf pre k = (if pre = '''' then k else pre @ ''.'' @ k)
    \<and> validateKey D (k, VMap pm) ovr pre st ign =
      validateChartValues dm pm
        (Some (case ovr of
                 None \<Rightarrow> []
               | Some m \<Rightarrow> (case map_of m k of Some (VMap sub) \<Rightarrow> sub | _ \<Rightarrow> [])))
        (fullKeyOf pre k) st ign
    \<and> validateChartValues D (P1 @ (k, VMap pm) # P2) ovr pre st ign =
      validateChartValues D P2 ovr pre
        (validateChartValues dm pm
          (Some (case ovr of
                   None \<Rightarrow> []
                 | Some m \<Rightarrow> (case map_of m k of Some (VMap sub) \<Rightarrow> sub | _ \<Rightarrow> [])))
          (fullKeyOf pre k) (validateChartValues D P1 ovr pre st ign) ign)
        ign
    \<and> (\<not> isMap pv \<longrightarrow>
        validateKey D (k, pv) ovr pre st ign =
          report (ExpectedMap (fullKeyOf pre k) (TypeOf pv)) st
        \<and> validateChartValues D (P1 @ (k, pv) # P2) ovr pre st ign =
          validateChartValues D P2 ovr pre
            (report (ExpectedMap (fullKeyOf pre k) (TypeOf pv))
              (validateChartValues D P1 ovr pre st ign))
            ign)"
proof -
  have path: "fullKeyOf pre k = (if pre = '''' then k else pre @ ''.'' @ k)"
    by (simp add: fullKeyOf_def)
  have rec: "validateKey D (k, VMap pm) ovr pre s ign =
      validateChartValues dm pm
        (Some (case ovr of
                 None \<Rightarrow> []
               | Some m \<Rightarrow> (case map_of m k of Some (VMap sub) \<Rightarrow> sub | _ \<Rightarrow> [])))
        (fullKeyOf pre k) s ign" for s
    using assms by (simp add: validateKey.simps Let_def)
  have rep: "validateKey D (k, pv) ovr pre s ign =
      report (ExpectedMap (fullKeyOf pre k) (TypeOf pv)) s" if "\<not> isMap pv" for s
    using assms that by (cases pv) (simp_all add: validateKey.simps Let_def)
  have run_rec: "validateChartValues D (P1 @ (k, VMap pm) # P2) ovr pre st ign =
      validateChartValues D P2 ovr pre
        (validateChartValues dm pm
          (Some (case ovr of
                   None \<Rightarrow> []
                 | Some m \<Rightarrow> (case map_of m k of Some (VMap sub) \<Rightarrow> sub | _ \<Rightarrow> [])))
          (fullKeyOf pre k) (validateChartValues D P1 ovr pre st ign) ign)
        ign"
    by (simp only: validate_split rec)
  have run_rep: "validateChartValues D (P1 @ (k, pv) # P2) ovr pre st ign =
      validateChartValues D P2 ovr pre
        (report (ExpectedMap (fullKeyOf pre k) (TypeOf pv))
          (validateChartValues D P1 ovr pre st ign))
        ign" if "\<not> isMap pv"
    by (simp only: validate_split rep [OF that])
  from path rec [of st] run_rec rep [of st] run_rep show ?thesis by blast
qed

theorem map_default_recurses_or_reports_witness:
  "\<not> shouldIgnore (fullKeyOf ''svc'' ''tempo'') [''svc.name'']
   \<and> map_of [(''replicas'', VInt 1), (''tempo'', VMap [(''enabled'', VBool True)])] ''tempo''
       = Some (VMap [(''enabled'', VBool True)])
   \<and> fullKeyOf ''svc'' ''tempo'' = ''svc.tempo''
   \<and> validateChartValues [(''replicas'', VInt 1), (''tempo'', VMap [(''enabled'', VBool True)])]
        [(''replicas'', VInt 1), (''tempo'', VMap [(''enabled'', VBool True)]), (''zone'', VString ''a'')]
        (Some [(''tempo'', VMap [(''other'', VBool False)])]) ''svc''
        \<lparr>issuesFound = False, printed = []\<rparr> [''svc.name'']
      = \<lparr>issuesFound = True,
         printed = [RedundantValue ''svc.replicas'' (VInt 1),
                    RedundantValue ''svc.tempo.enabled'' (VBool True)]\<rparr>
   \<and> validateChartValues [(''replicas'', VInt 1), (''tempo'', VMap [(''enabled'', VBool True)])]
        [(''replicas'', VInt 1), (''tempo'', VMap [(''enabled'', VBool True)]), (''zone'', VString ''a'')]
        (Some [(''tempo'', VMap [(''enabled'', VBool False)])]) ''svc''
        \<lparr>issuesFound = False, printed = []\<rparr> [''svc.name'']
      = \<lparr>issuesFound = True, printed = [RedundantValue ''svc.replicas'' (VInt 1)]\<rparr>
   \<and> \<not> isMap (VString ''on'')
   \<and> validateChartValues [(''replicas'', VInt 1), (''tempo'', VMap [(''enabled'', VBool True)])]
        [(''replicas'', VInt 1), (''tempo'', VString ''on''), (''zone'', VString ''a'')]
        (Some [(''tempo'', VMap [(''enabled'', VBool False)])]) ''svc''
        \<lparr>issuesFound = False, printed = []\<rparr> [''svc.name'']
      = \<lparr>issuesFound = True,
         printed = [RedundantValue ''svc.replicas'' (VInt 1),
                    ExpectedMap ''svc.tempo'' (Some TString)]\<rparr>"
proof -
  have h1: "\<not> shouldIgnore (fullKeyOf ''svc'' ''tempo'') [''svc.name'']"
    by (simp add: fullKeyOf_def HasPrefix_def)
  have h2: "map_of [(''replicas'', VInt 1), (''tempo'', VMap [(''enabled'', VBool True)])] ''tempo''
       = Some (VMap [(''enabled'', VBool True)])"
    by simp
  have h3: "\<not> isMap (VString ''on'')" by simp
  note t = map_default_recurses_or_reports [OF h1 h2, where ?P1.0 = "[(''replicas'', VInt 1)]"
      and ?P2.0 = "[(''zone'', VString ''a'')]" and pm = "[(''enabled'', VBool True)]"
      and pv = "VString ''on''" and st = "\<lparr>issuesFound = False, printed = []\<rparr>"]
  show ?thesis
    using h1 h2 h3 t [of "Some [(''tempo'', VMap [(''other'', VBool False)])]"]
      t [of "Some [(''tempo'', VMap [(''enabled'', VBool False)])]"]
    by (simp add: validateKey.simps fullKeyOf_def HasPrefix_def DeepEqual.simps report_def)
qed

text \<open>
  C6. For a non-ignored key \<open>k\<close> whose default value \<open>dv\<close> is not a mapping and whose provided
  value \<open>pv\<close> does not deep-equal \<open>dv\<close>: when both values are non-null and their runtime
  types differ, the loop body reports a Type-mismatch issue with the default's type as
  expected and the provided value's type as actual; when the types are the same, or one of
  the values is null, it reports nothing. The second conjunct says the same for the key at
  any position of the provided tree.
\<close>
theorem type_mismatch_iff_types_differ:
  assumes "\<not> shouldIgnore (fullKeyOf pre k) ign"
    and "map_of D k = Some dv" and "\<not> isMap dv" and "\<not> DeepEqual dv pv"
  shows "validateKey D (k, pv) ovr pre st ign =
      (if dv \<noteq> VNil \<and> pv \<noteq> VNil \<and> TypeOf dv \<noteq> TypeOf pv
       then report (TypeMismatch (fullKeyOf pre k) (TypeOf dv) (TypeOf pv)) st
       else st)
    \<and> validateChartValues D (P1 @ (k, pv) # P2) ovr pre st ign =
      validateChartValues D P2 ovr pre
        (if dv \<noteq> VNil \<and> pv \<noteq> VNil \<and> TypeOf dv \<noteq> TypeOf pv
         then report (TypeMismatch (fullKeyOf pre k) (TypeOf dv) (TypeOf pv))
                (validateChartValues D P1 ovr pre st ign)
         else validateChartValues D P1 ovr pre st ign)
        ign"
proof -
  have "validateKey D (k, pv) ovr pre s ign =
      (if dv \<noteq> VNil \<and> pv \<noteq> VNil \<and> TypeOf dv \<noteq> TypeOf pv
       then report (TypeMismatch (fullKeyOf pre k) (TypeOf dv) (TypeOf pv)) s
       else s)" for s
    using assms by (simp add: key_scalar)
  then show ?thesis
    by (simp add: validate_split)
qed

theorem type_mismatch_iff_types_differ_witness:
  "\<not> shouldIgnore (fullKeyOf '''' ''key1'') []
   \<and> map_of [(''key1'', VString ''value1'')] ''key1'' = Some (VString ''value1'')
   \<and> \<not> isMap (VString ''value1'')
   \<and> \<not> DeepEqual (VString ''value1'') (VInt 123)
   \<and> \<not> DeepEqual (VString ''value1'') (VString ''different'')
   \<and> \<not> DeepEqual (VString ''value1'') VNil
   \<and> validateChartValues [(''key1'', VString ''value1'')] [(''key1'', VInt 123)] None ''''
        \<lparr>issuesFound = False, printed = []\<rparr> []
      = \<lparr>issuesFound = True, printed = [TypeMismatch ''key1'' (Some TString) (Some TInt)]\<rparr>
   \<and> validateChartValues [(''key1'', VString ''value1'')] [(''key1'', VString ''different'')] None ''''
        \<lparr>issuesFound = False, printed = []\<rparr> []
      = \<lparr>issuesFound = False, printed = []\<rparr>
   \<and> validateChartValues [(''key1'', VString ''value1'')] [(''key1'', VNil)] None ''''
        \<lparr>issuesFound = False, printed = []\<rparr> []
      = \<lparr>issuesFound = False, printed = []\<rparr>"
proof -
  have h1: "\<not> shouldIgnore (fullKeyOf '''' ''key1'') []" by simp
  have h2: "map_of [(''key1'', VString ''value1'')] ''key1'' = Some (VString ''value1'')" by simp
  have h3: "\<not> isMap (VString ''value1'')" by simp
  have a: "\<not> DeepEqual (VString ''value1'') (VInt 123)" by (simp add: DeepEqual.simps)
  have b: "\<not> DeepEqual (VString ''value1'') (VString ''different'')" by (simp add: DeepEqual.simps)
  have c: "\<not> DeepEqual (VString ''value1'') VNil" by (simp add: DeepEqual.simps)
  note t = type_mismatch_iff_types_differ [OF h1 h2 h3, where ?P1.0 = "[]" and ?P2.0 = "[]"
      and ovr = None and st = "\<lparr>issuesFound = False, printed = []\<rparr>"]
  show ?thesis
    using h1 h2 h3 a b c t [OF a] t [OF b] t [OF c]
    by (simp add: report_def fullKeyOf_def)
qed

text \<open>
  C2, as the claim states it, fails in two ways. The three-tree comparator skips a provided
  key that the defaults lack without reporting anything, also when no overrides tree is
  supplied; and the two-tree comparator, which does report such keys, reports nothing for
  one whose path is ignored.
\<close>
theorem unexpected_key_counterexample:
  "validateChartValues [] [(''extra'', VInt 1)] None ''''
       \<lparr>issuesFound = False, printed = []\<rparr> []
     = \<lparr>issuesFound = False, printed = []\<rparr>
   \<and> validateChartValues_base [] [(''extra'', VInt 1)] ''''
       \<lparr>issuesFound = False, printed = []\<rparr> [''ex'']
     = \<lparr>issuesFound = False, printed = []\<rparr>"
  by (simp add: validateKey.simps validateKey_base.simps fullKeyOf_def HasPrefix_def)

text \<open>
  C2, amended. In the two-tree comparator, a key of the provided tree that is absent from
  the defaults and whose full path is not ignored makes the loop body report exactly one
  Unexpected-key issue, for that key's full path, whatever lies under the key (nothing
  under it is visited); this holds for the key at any position of the provided tree. The
  three-tree comparator reports nothing for such a key, with or without an overrides tree.
\<close>
theorem unexpected_key_reported_by_two_tree_comparator:
  assumes "map_of D k = None" and "\<not> shouldIgnore (fullKeyOf pre k) ign"
  shows "validateKey_base D (k, pv) pre st ign = report (UnexpectedKey (fullKeyOf pre k)) st
    \<and> validateChartValues_base D (P1 @ (k, pv) # P2) pre st ign =
        validateChartValues_base D P2 pre
          (report (UnexpectedKey (fullKeyOf pre k)) (validateChartValues_base D P1 pre st ign)) ign
    \<and> validateKey D (k, pv) ovr pre st ign = st
    \<and> validateChartValues D (P1 @ (k, pv) # P2) ovr pre st ign =
        validateChartValues D (P1 @ P2) ovr pre st ign"
proof -
  have b: "validateKey_base D (k, pv) pre s ign = report (UnexpectedKey (fullKeyOf pre k)) s" for s
    using assms by (simp add: validateKey_base.simps Let_def)
  have m: "validateKey D (k, pv) ovr pre s ign = s" for s
    using assms by (simp add: validateKey.simps Let_def)
  have "validateChartValues D (P1 @ P2) ovr pre st ign =
      validateChartValues D P2 ovr pre (validateChartValues D P1 ovr pre st ign) ign"
    by (induction P1 arbitrary: st) simp_all
  then show ?thesis
    by (simp add: b m validate_split validate_base_split)
qed

theorem unexpected_key_reported_by_two_tree_comparator_witness:
  "map_of [(''replicas'', VInt 1)] ''maxReplicaCount'' = None
   \<and> \<not> shouldIgnore (fullKeyOf '''' ''maxReplicaCount'') [''resources'']
   \<and> validateChartValues_base [(''replicas'', VInt 1)]
        [(''maxReplicaCount'', VMap [(''deep'', VInt 3)])] ''''
        \<lparr>issuesFound = False, printed = []\<rparr> [''resources'']
      = \<lparr>issuesFound = True, printed = [UnexpectedKey ''maxReplicaCount'']\<rparr>
   \<and> validateChartValues [(''replicas'', VInt 1)]
        [(''maxReplicaCount'', VMap [(''deep'', VInt 3)])] None ''''
        \<lparr>issuesFound = False, printed = []\<rparr> [''resources'']
      = \<lparr>issuesFound = False, printed = []\<rparr>"
proof -
  have h1: "map_of [(''replicas'', VInt 1)] ''maxReplicaCount'' = None" by simp
  have h2: "\<not> shouldIgnore (fullKeyOf '''' ''maxReplicaCount'') [''resources'']"
    by (simp add: fullKeyOf_def HasPrefix_def)
  show ?thesis
    using h1 h2
      unexpected_key_reported_by_two_tree_comparator [OF h1 h2, where ?P1.0 = "[]" and ?P2.0 = "[]"
        and pv = "VMap [(''deep'', VInt 3)]" and st = "\<lparr>issuesFound = False, printed = []\<rparr>"
        and ovr = None]
    by (simp add: report_def fullKeyOf_def)
qed

text \<open>
  C4. \<open>shouldIgnore path ignoreList\<close> holds exactly when some entry of the ignore list is
  a plain string prefix of the path (no segment boundary is looked at). A key whose full
  path matches is skipped by the loop body: the state is unchanged, whatever the key's
  value, so nothing is reported and nothing below the key is visited. And over a whole run
  of the comparator, no issue is reported at a path that the ignore list matches: no
  reported path starts with an entry of the list.
\<close>
theorem ignored_paths_are_skipped:
  "(shouldIgnore path ign \<longleftrightarrow> (\<exists>e \<in> set ign. \<exists>rest. path = e @ rest))
   \<and> (shouldIgnore (fullKeyOf pre k) ign \<longrightarrow> validateKey D (k, pv) ovr pre st ign = st)
   \<and> (shouldIgnore (fullKeyOf pre k) ign \<longrightarrow>
        validateChartValues D (P1 @ (k, pv) # P2) ovr pre st ign =
          validateChartValues D (P1 @ P2) ovr pre st ign)
   \<and> (\<exists>is. validateChartValues D P ovr pre st ign =
          st\<lparr>printed := printed st @ is, issuesFound := (issuesFound st \<or> is \<noteq> [])\<rparr>
        \<and> (\<forall>i \<in> set is. \<not> shouldIgnore (issuePath i) ign
              \<and> \<not> (\<exists>e \<in> set ign. \<exists>rest. issuePath i = e @ rest)))"
proof (intro conjI)
  show "shouldIgnore path ign \<longleftrightarrow> (\<exists>e \<in> set ign. \<exists>rest. path = e @ rest)"
    by (rule shouldIgnore_iff)
next
  show "shouldIgnore (fullKeyOf pre k) ign \<longrightarrow> validateKey D (k, pv) ovr pre st ign = st"
    by (simp add: validateKey.simps Let_def)
next
  have m: "shouldIgnore (fullKeyOf pre k) ign \<Longrightarrow> validateKey D (k, pv) ovr pre s ign = s" for s
    by (simp add: validateKey.simps Let_def)
  have "validateChartValues D (P1 @ P2) ovr pre st ign =
      validateChartValues D P2 ovr pre (validateChartValues D P1 ovr pre st ign) ign"
    by (induction P1 arbitrary: st) simp_all
  then show "shouldIgnore (fullKeyOf pre k) ign \<longrightarrow>
      validateChartValues D (P1 @ (k, pv) # P2) ovr pre st ign =
        validateChartValues D (P1 @ P2) ovr pre st ign"
    by (simp add: m validate_split)
next
  have "validateChartValues D P ovr pre st ign =
      st\<lparr>printed := printed st @ issuesOf D P ovr pre ign,
         issuesFound := (issuesFound st \<or> issuesOf D P ovr pre ign \<noteq> [])\<rparr>"
    by (simp add: validate_emit emit_def)
  moreover have "\<forall>i \<in> set (issuesOf D P ovr pre ign). \<not> shouldIgnore (issuePath i) ign
      \<and> \<not> (\<exists>e \<in> set ign. \<exists>rest. issuePath i = e @ rest)"
    using issues_not_ignored_aux(1) [of D P ovr pre ign] by (simp add: shouldIgnore_iff)
  ultimately show "\<exists>is. validateChartValues D P ovr pre st ign =
          st\<lparr>printed := printed st @ is, issuesFound := (issuesFound st \<or> is \<noteq> [])\<rparr>
        \<and> (\<forall>i \<in> set is. \<not> shouldIgnore (issuePath i) ign
              \<and> \<not> (\<exists>e \<in> set ign. \<exists>rest. issuePath i = e @ rest))"
    by blast
qed

theorem ignored_paths_are_skipped_witness:
  "shouldIgnore ''resources.cpu'' [''res'']
   \<and> shouldIgnore (fullKeyOf '''' ''resources'') [''res'']
   \<and> validateChartValues
        [(''resources'', VMap [(''limits'', VMap [(''cpu'', VString ''100m'')])])]
        [(''resources'', VMap [(''limits'', VMap [(''cpu'', VInt 1)])])] None ''''
        \<lparr>issuesFound = False, printed = []\<rparr> [''res'']
      = \<lparr>issuesFound = False, printed = []\<rparr>"
proof -
  have h1: "shouldIgnore ''resources.cpu'' [''res'']"
    by (simp add: HasPrefix_def)
  have h2: "shouldIgnore (fullKeyOf '''' ''resources'') [''res'']"
    by (simp add: fullKeyOf_def HasPrefix_def)
  show ?thesis
    using h1 h2
      ignored_paths_are_skipped [where path = "''resources.cpu''" and ign = "[''res'']"
        and pre = "''''" and k = "''resources''"
        and D = "[(''resources'', VMap [(''limits'', VMap [(''cpu'', VString ''100m'')])])]"
        and pv = "VMap [(''limits'', VMap [(''cpu'', VInt 1)])]" and ovr = None
        and st = "\<lparr>issuesFound = False, printed = []\<rparr>" and ?P1.0 = "[]" and ?P2.0 = "[]"
        and P = "[]"]
    by simp
qed





text \<open>
  C10. The issues-found flag is monotone over a run of the comparator, and over one pass of
  the loop body: a flag that is true on entry is true on exit. The printed issues only grow,
  and on exit the flag is true exactly when it was true on entry or at least one issue was
  reported during the run.
\<close>
theorem issuesFound_monotone:
  "(issuesFound st \<longrightarrow> issuesFound (validateChartValues D P ovr pre st ign))
   \<and> (issuesFound st \<longrightarrow> issuesFound (validateKey D kv ovr pre st ign))
   \<and> (\<exists>is. printed (validateChartValues D P ovr pre st ign) = printed st @ is
         \<and> issuesFound (validateChartValues D P ovr pre st ign) = (issuesFound st \<or> is \<noteq> []))
   \<and> (\<exists>is. printed (validateKey D kv ovr pre st ign) = printed st @ is
         \<and> issuesFound (validateKey D kv ovr pre st ign) = (issuesFound st \<or> is \<noteq> []))"
  by (simp add: validate_emit key_emit emit_def)

theorem issuesFound_monotone_witness:
  "issuesFound \<lparr>issuesFound = True, printed = []\<rparr>
   \<and> issuesFound (validateChartValues [(''key1'', VString ''value1'')]
        [(''key1'', VString ''different'')] None '''' \<lparr>issuesFound = True, printed = []\<rparr> [])
   \<and> printed (validateChartValues [(''key1'', VString ''value1'')]
        [(''key1'', VString ''different'')] None '''' \<lparr>issuesFound = True, printed = []\<rparr> []) = []"
proof -
  have h: "issuesFound \<lparr>issuesFound = True, printed = []\<rparr>" by simp
  have p: "printed (validateChartValues [(''key1'', VString ''value1'')]
        [(''key1'', VString ''different'')] None '''' \<lparr>issuesFound = True, printed = []\<rparr> []) = []"
    by (simp add: validateKey.simps fullKeyOf_def DeepEqual.simps)
  show ?thesis
    using h p issuesFound_monotone [of "\<lparr>issuesFound = True, printed = []\<rparr>"
        "[(''key1'', VString ''value1'')]" "[(''key1'', VString ''different'')]" None "''''" "[]"]
    by simp
qed

lemma DeepEqual_VMap_iff:
  "DeepEqual (VMap m1) (VMap m2) \<longleftrightarrow>
     length m1 = length m2 \<and>
     (\<forall>(k, v1) \<in> set m1. \<exists>v2. map_of m2 k = Some v2 \<and> DeepEqual v1 v2)"
  by (auto simp: DeepEqual.simps list_all_iff split: option.splits)

lemma DeepEqual_VMap_left: "DeepEqual (VMap m) y \<Longrightarrow> isMap y"
  by (cases y) (simp_all add: DeepEqual.simps)

lemma DeepEqual_map_lookup:
  assumes eq: "DeepEqual (VMap D) (VMap P)"
    and dD: "distinct (map fst D)" and dP: "distinct (map fst P)"
    and mem: "(k, pv) \<in> set P"
  shows "\<exists>dv. map_of D k = Some dv \<and> DeepEqual dv pv"
proof -
  from eq have len: "length D = length P"
    and all: "\<And>k v1. (k, v1) \<in> set D \<Longrightarrow> \<exists>v2. map_of P k = Some v2 \<and> DeepEqual v1 v2"
    by (auto simp: DeepEqual_VMap_iff)
  have sub: "set (map fst D) \<subseteq> set (map fst P)"
  proof
    fix x assume "x \<in> set (map fst D)"
    then obtain v1 where "(x, v1) \<in> set D" by auto
    from all [OF this] obtain v2 where "map_of P x = Some v2" by blast
    then have "(x, v2) \<in> set P" by (rule map_of_SomeD)
    then show "x \<in> set (map fst P)" by force
  qed
  have "card (set (map fst D)) = card (set (map fst P))"
    using distinct_card [OF dD] distinct_card [OF dP] len by simp
  with sub have "set (map fst D) = set (map fst P)"
    by (simp add: card_subset_eq)
  moreover from mem have "k \<in> set (map fst P)" by force
  ultimately have "k \<in> set (map fst D)" by simp
  then obtain dv where d: "(k, dv) \<in> set D" by auto
  with dD have look: "map_of D k = Some dv" by simp
  from all [OF d] obtain v2 where "map_of P k = Some v2" and e: "DeepEqual dv v2" by blast
  moreover from dP mem have "map_of P k = Some pv" by simp
  ultimately have "v2 = pv" by simp
  with e look show ?thesis by blast
qed

lemma uniqueKeys_entry: "uniqueKeys (VMap m) \<Longrightarrow> (k, v) \<in> set m \<Longrightarrow> uniqueKeys v"
  by (auto simp: list_all_iff)

lemma set_issuesOf:
  "set (issuesOf D P ovr pre ign) = (\<Union>kv \<in> set P. set (keyIssues D kv ovr pre ign))"
  by (induction P) (simp_all add: issuesOf_Nil issuesOf_Cons)

lemma DeepEqual_scalar_map: "\<not> isMap dv \<Longrightarrow> \<not> DeepEqual dv (VMap m)"
  by (cases dv) (simp_all add: DeepEqual.simps)

lemma redundantLeaves_redundant: "\<forall>i \<in> set (redundantLeaves P pre ign). isRedundant i"
  by (induction P pre ign rule: redundantLeaves.induct) (auto split: val.splits)

lemma redundantLeaves_top:
  "(k, pv) \<in> set P \<Longrightarrow> \<not> shouldIgnore (fullKeyOf pre k) ign \<Longrightarrow> \<not> isMap pv \<Longrightarrow>
     RedundantValue (fullKeyOf pre k) pv \<in> set (redundantLeaves P pre ign)"
proof (induction P pre ign rule: redundantLeaves.induct)
  case (1 pre ign)
  then show ?case by simp
next
  case (2 k' pv' P pre ign)
  show ?case
  proof (cases "(k, pv) = (k', pv')")
    case True
    then have "k = k'" and "pv = pv'" by simp_all
    with "2.prems" show ?thesis by (cases pv') auto
  next
    case False
    with "2.prems" have "(k, pv) \<in> set P" by auto
    with "2.IH"(2) "2.prems" show ?thesis by simp
  qed
qed

lemma equal_trees_aux:
  "(\<forall>(k, pv) \<in> set P. \<exists>dv. map_of D k = Some dv \<and> DeepEqual dv pv \<and> uniqueKeys dv \<and> uniqueKeys pv)
     \<longrightarrow> (ovr = None \<or> ovr = Some [])
     \<longrightarrow> issuesOf D P ovr pre ign = redundantLeaves P pre ign"
  "(\<exists>dv. map_of D (fst kv) = Some dv \<and> DeepEqual dv (snd kv) \<and> uniqueKeys dv \<and> uniqueKeys (snd kv))
     \<longrightarrow> (ovr = None \<or> ovr = Some [])
     \<longrightarrow> keyIssues D kv ovr pre ign =
          (if shouldIgnore (fullKeyOf pre (fst kv)) ign then []
           else (case snd kv of
                   VMap pm \<Rightarrow> redundantLeaves pm (fullKeyOf pre (fst kv)) ign
                 | _ \<Rightarrow> [RedundantValue (fullKeyOf pre (fst kv)) (snd kv)]))"
proof (induction D P ovr pre ign and D kv ovr pre ign rule: issues_induct)
  case (Nil D ovr pre ign)
  show ?case by (simp add: issuesOf_Nil)
next
  case (Cons D kv rest ovr pre ign)
  show ?case
  proof (intro impI)
    assume all: "\<forall>(k, pv) \<in> set (kv # rest).
        \<exists>dv. map_of D k = Some dv \<and> DeepEqual dv pv \<and> uniqueKeys dv \<and> uniqueKeys pv"
      and no: "ovr = None \<or> ovr = Some []"
    obtain a b where kv: "kv = (a, b)" by (cases kv)
    from all kv have "\<exists>dv. map_of D (fst kv) = Some dv \<and> DeepEqual dv (snd kv) \<and>
        uniqueKeys dv \<and> uniqueKeys (snd kv)" by auto
    with Cons(1) no have k: "keyIssues D kv ovr pre ign =
        (if shouldIgnore (fullKeyOf pre (fst kv)) ign then []
         else (case snd kv of
                 VMap pm \<Rightarrow> redundantLeaves pm (fullKeyOf pre (fst kv)) ign
               | _ \<Rightarrow> [RedundantValue (fullKeyOf pre (fst kv)) (snd kv)]))"
      by blast
    from all have "\<forall>(k, pv) \<in> set rest.
        \<exists>dv. map_of D k = Some dv \<and> DeepEqual dv pv \<and> uniqueKeys dv \<and> uniqueKeys pv"
      by simp
    with Cons(2) no have r: "issuesOf D rest ovr pre ign = redundantLeaves rest pre ign"
      by blast
    show "issuesOf D (kv # rest) ovr pre ign = redundantLeaves (kv # rest) pre ign"
      using k r unfolding kv by (simp add: issuesOf_Cons split: val.splits)
  qed
next
  case (Key D key pv ovr pre ign)
  show ?case
  proof (intro impI)
    assume "\<exists>dv. map_of D (fst (key, pv)) = Some dv \<and> DeepEqual dv (snd (key, pv)) \<and>
        uniqueKeys dv \<and> uniqueKeys (snd (key, pv))"
      and no: "ovr = None \<or> ovr = Some []"
    then obtain dv where look: "map_of D key = Some dv" and eq: "DeepEqual dv pv"
      and ud: "uniqueKeys dv" and up: "uniqueKeys pv" by auto
    have goal: "keyIssues D (key, pv) ovr pre ign =
        (if shouldIgnore (fullKeyOf pre key) ign then []
         else (case pv of
                 VMap pm \<Rightarrow> redundantLeaves pm (fullKeyOf pre key) ign
               | _ \<Rightarrow> [RedundantValue (fullKeyOf pre key) pv]))"
    proof (cases "shouldIgnore (fullKeyOf pre key) ign")
      case True
      then show ?thesis by (simp add: keyIssues_eq)
    next
      case ni: False
      show ?thesis
      proof (cases "isMap dv")
        case True
        then obtain dm where dv: "dv = VMap dm" by (cases dv) auto
        with eq have "isMap pv" using DeepEqual_VMap_left by blast
        then obtain pm where pv: "pv = VMap pm" by (cases pv) auto
        have m: "\<forall>(k, v) \<in> set pm. \<exists>d. map_of dm k = Some d \<and> DeepEqual d v \<and> uniqueKeys d \<and> uniqueKeys v"
        proof (clarify)
          fix k v assume kv: "(k, v) \<in> set pm"
          from eq ud up dv pv kv
          obtain d where d: "map_of dm k = Some d" "DeepEqual d v"
            using DeepEqual_map_lookup [of dm pm k v] by auto
          from d(1) have "(k, d) \<in> set dm" by (rule map_of_SomeD)
          with ud dv have "uniqueKeys d" using uniqueKeys_entry by blast
          moreover from up pv kv have "uniqueKeys v" using uniqueKeys_entry by blast
          ultimately show "\<exists>d. map_of dm k = Some d \<and> DeepEqual d v \<and> uniqueKeys d \<and> uniqueKeys v"
            using d by blast
        qed
        from no have "overridesFor ovr key = []"
          by (auto simp: overridesFor_def)
        moreover from look dv have "map_of D key = Some (VMap dm)" by simp
        ultimately have "issuesOf dm pm (Some (overridesFor ovr key)) (fullKeyOf pre key) ign =
            redundantLeaves pm (fullKeyOf pre key) ign"
          using Key [OF ni _ pv] m by simp
        with ni look dv pv show ?thesis by (simp add: keyIssues_eq)
      next
        case nm: False
        with eq have npm: "\<not> isMap pv"
          using DeepEqual_scalar_map by (cases pv) auto
        from no have "\<not> resetByOverride ovr key pv"
          by (auto simp: resetByOverride_def)
        with ni look nm eq npm show ?thesis
          by (cases pv) (simp_all add: keyIssues_eq)
      qed
    qed
    then show "keyIssues D (key, pv) ovr pre ign =
        (if shouldIgnore (fullKeyOf pre (fst (key, pv))) ign then []
         else (case snd (key, pv) of
                 VMap pm \<Rightarrow> redundantLeaves pm (fullKeyOf pre (fst (key, pv))) ign
               | _ \<Rightarrow> [RedundantValue (fullKeyOf pre (fst (key, pv))) (snd (key, pv))]))"
      by (simp split: val.splits)
  qed
qed

text \<open>
  C3, as the claim states it, fails on the repository's own test "redundant value": with
  no overrides tree and a provided tree that deep-equals the defaults, the comparator
  reports a Redundant-value issue and raises the flag.
\<close>
theorem equal_trees_counterexample:
  "DeepEqual (VMap [(''key1'', VString ''value1'')]) (VMap [(''key1'', VString ''value1'')])
   \<and> validateChartValues [(''key1'', VString ''value1'')] [(''key1'', VString ''value1'')] None ''''
        \<lparr>issuesFound = False, printed = []\<rparr> []
      = \<lparr>issuesFound = True, printed = [RedundantValue ''key1'' (VString ''value1'')]\<rparr>"
  by (simp add: validateKey.simps fullKeyOf_def DeepEqual.simps report_def)

text \<open>
  C3, amended. For trees \<open>D\<close> and \<open>P\<close> whose mappings have unique keys, with no overrides tree
  supplied: if \<open>P\<close> deep-equals \<open>D\<close>, the comparator reports exactly one Redundant-value issue
  for every key of \<open>P\<close>, at every level of nesting, whose value is not a mapping and whose
  full path is not ignored, in the order of the walk, and it reports nothing else (no
  Unexpected-key and no Type-mismatch issue). The flag is raised exactly when there is such
  a key. The first conjunct gives the state on exit, with \<open>redundantLeaves P pre ign\<close> the
  list of those issues; the other two say that each of them is a Redundant-value issue and
  that each top-level key of that kind has its own.
\<close>
theorem equal_trees_report_only_redundant:
  assumes "uniqueKeys (VMap D)" and "uniqueKeys (VMap P)" and "DeepEqual (VMap D) (VMap P)"
  shows "validateChartValues D P None pre st ign =
        st\<lparr>printed := printed st @ redundantLeaves P pre ign,
           issuesFound := (issuesFound st \<or> redundantLeaves P pre ign \<noteq> [])\<rparr>
      \<and> (\<forall>i \<in> set (redundantLeaves P pre ign). isRedundant i)
      \<and> (\<forall>(k, pv) \<in> set P. \<not> shouldIgnore (fullKeyOf pre k) ign \<and> \<not> isMap pv \<longrightarrow>
            RedundantValue (fullKeyOf pre k) pv \<in> set (redundantLeaves P pre ign))"
proof -
  have look: "\<exists>dv. map_of D k = Some dv \<and> DeepEqual dv pv \<and> uniqueKeys dv \<and> uniqueKeys pv"
    if "(k, pv) \<in> set P" for k pv
  proof -
    from assms that obtain dv where d: "map_of D k = Some dv" "DeepEqual dv pv"
      using DeepEqual_map_lookup [of D P k pv] by auto
    from d(1) have "(k, dv) \<in> set D" by (rule map_of_SomeD)
    with assms(1) have "uniqueKeys dv" using uniqueKeys_entry by blast
    moreover from assms(2) that have "uniqueKeys pv" using uniqueKeys_entry by blast
    ultimately show ?thesis using d by blast
  qed
  have "issuesOf D P None pre ign = redundantLeaves P pre ign"
    using equal_trees_aux(1) [of P D None pre ign] look by blast
  then have run: "validateChartValues D P None pre st ign =
      st\<lparr>printed := printed st @ redundantLeaves P pre ign,
         issuesFound := (issuesFound st \<or> redundantLeaves P pre ign \<noteq> [])\<rparr>"
    by (simp add: validate_emit emit_def)
  have every: "\<forall>(k, pv) \<in> set P. \<not> shouldIgnore (fullKeyOf pre k) ign \<and> \<not> isMap pv \<longrightarrow>
      RedundantValue (fullKeyOf pre k) pv \<in> set (redundantLeaves P pre ign)"
    using redundantLeaves_top by blast
  from run redundantLeaves_redundant every show ?thesis by blast
qed

theorem equal_trees_report_only_redundant_witness:
  "uniqueKeys (VMap [(''a'', VInt 1), (''b'', VMap [(''c'', VString ''x''), (''d'', VMap [(''e'', VBool True)])])])
   \<and> uniqueKeys (VMap [(''b'', VMap [(''d'', VMap [(''e'', VBool True)]), (''c'', VString ''x'')]), (''a'', VInt 1)])
   \<and> DeepEqual (VMap [(''a'', VInt 1), (''b'', VMap [(''c'', VString ''x''), (''d'', VMap [(''e'', VBool True)])])])
        (VMap [(''b'', VMap [(''d'', VMap [(''e'', VBool True)]), (''c'', VString ''x'')]), (''a'', VInt 1)])
   \<and> redundantLeaves [(''b'', VMap [(''d'', VMap [(''e'', VBool True)]), (''c'', VString ''x'')]), (''a'', VInt 1)]
        ''svc'' []
      = [RedundantValue ''svc.b.d.e'' (VBool True), RedundantValue ''svc.b.c'' (VString ''x''),
         RedundantValue ''svc.a'' (VInt 1)]
   \<and> validateChartValues [(''a'', VInt 1), (''b'', VMap [(''c'', VString ''x''), (''d'', VMap [(''e'', VBool True)])])]
        [(''b'', VMap [(''d'', VMap [(''e'', VBool True)]), (''c'', VString ''x'')]), (''a'', VInt 1)] None ''svc''
        \<lparr>issuesFound = False, printed = []\<rparr> []
      = \<lparr>issuesFound = True,
         printed = [RedundantValue ''svc.b.d.e'' (VBool True), RedundantValue ''svc.b.c'' (VString ''x''),
                    RedundantValue ''svc.a'' (VInt 1)]\<rparr>
   \<and> validateChartValues [(''a'', VInt 1), (''b'', VMap [(''c'', VString ''x''), (''d'', VMap [(''e'', VBool True)])])]
        [(''b'', VMap [(''d'', VMap [(''e'', VBool True)]), (''c'', VString ''x'')]), (''a'', VInt 1)] None ''svc''
        \<lparr>issuesFound = False, printed = []\<rparr> [''svc.b.d'']
      = \<lparr>issuesFound = True,
         printed = [RedundantValue ''svc.b.c'' (VString ''x''), RedundantValue ''svc.a'' (VInt 1)]\<rparr>"
proof -
  have h1: "uniqueKeys (VMap [(''a'', VInt 1), (''b'', VMap [(''c'', VString ''x''), (''d'', VMap [(''e'', VBool True)])])])"
    by simp
  have h2: "uniqueKeys (VMap [(''b'', VMap [(''d'', VMap [(''e'', VBool True)]), (''c'', VString ''x'')]), (''a'', VInt 1)])"
    by simp
  have h3: "DeepEqual (VMap [(''a'', VInt 1), (''b'', VMap [(''c'', VString ''x''), (''d'', VMap [(''e'', VBool True)])])])
        (VMap [(''b'', VMap [(''d'', VMap [(''e'', VBool True)]), (''c'', VString ''x'')]), (''a'', VInt 1)])"
    by (simp add: DeepEqual.simps)
  note t = equal_trees_report_only_redundant [OF h1 h2 h3, where pre = "''svc''"
      and st = "\<lparr>issuesFound = False, printed = []\<rparr>"]
  show ?thesis
    using h1 h2 h3 t [of "[]"] t [of "[''svc.b.d'']"]
    by (simp add: fullKeyOf_def HasPrefix_def)
qed

lemma map_of_restrictTo:
  "map_of (restrictTo D Q) k =
     (case map_of Q k of
        None \<Rightarrow> None
      | Some pv \<Rightarrow>
          map_option (\<lambda>dv. case dv of
                VMap dm \<Rightarrow> (case pv of VMap pm \<Rightarrow> VMap (restrictTo dm pm) | _ \<Rightarrow> VMap [])
              | _ \<Rightarrow> dv) (map_of D k))"
  by (induction D Q rule: restrictTo.induct) (auto split: option.splits)

lemma onlyKeysOf_restrictTo: "onlyKeysOf (restrictTo D P) P"
  by (induction D P rule: restrictTo.induct) (auto split: option.splits val.splits)

lemma restrict_aux:
  "(\<forall>(k, pv) \<in> set P. uniqueKeys pv) \<longrightarrow>
     (\<forall>Q. (\<forall>(k, pv) \<in> set P. map_of Q k = Some pv) \<longrightarrow>
        issuesOf (restrictTo D Q) P ovr pre ign = issuesOf D P ovr pre ign)"
  "uniqueKeys (snd kv) \<longrightarrow>
     (\<forall>Q. map_of Q (fst kv) = Some (snd kv) \<longrightarrow>
        keyIssues (restrictTo D Q) kv ovr pre ign = keyIssues D kv ovr pre ign)"
proof (induction D P ovr pre ign and D kv ovr pre ign rule: issues_induct)
  case (Nil D ovr pre ign)
  show ?case by (simp add: issuesOf_Nil)
next
  case (Cons D kv rest ovr pre ign)
  then show ?case
    by (cases kv) (auto simp: issuesOf_Cons)
next
  case (Key D key pv ovr pre ign)
  show ?case
  proof (intro impI allI)
    fix Q
    assume "uniqueKeys (snd (key, pv))" and "map_of Q (fst (key, pv)) = Some (snd (key, pv))"
    then have up: "uniqueKeys pv" and q: "map_of Q key = Some pv" by simp_all
    show "keyIssues (restrictTo D Q) (key, pv) ovr pre ign = keyIssues D (key, pv) ovr pre ign"
    proof (cases "shouldIgnore (fullKeyOf pre key) ign")
      case True
      then show ?thesis by (simp add: keyIssues_eq)
    next
      case ni: False
      show ?thesis
      proof (cases "map_of D key")
        case None
        with q show ?thesis by (simp add: keyIssues_eq map_of_restrictTo)
      next
        case (Some dv)
        show ?thesis
        proof (cases "isMap dv")
          case nm: False
          with Some q have "map_of (restrictTo D Q) key = Some dv"
            by (cases dv) (simp_all add: map_of_restrictTo)
          with Some show ?thesis by (simp add: keyIssues_eq)
        next
          case True
          then obtain dm where dv: "dv = VMap dm" by (cases dv) auto
          show ?thesis
          proof (cases "isMap pv")
            case False
            with Some q dv have "map_of (restrictTo D Q) key = Some (VMap [])"
              by (cases pv) (simp_all add: map_of_restrictTo)
            with Some dv ni False show ?thesis
              by (cases pv) (simp_all add: keyIssues_eq)
          next
            case True
            then obtain pm where pv: "pv = VMap pm" by (cases pv) auto
            from up pv have "distinct (map fst pm)" and u: "\<forall>(k, v) \<in> set pm. uniqueKeys v"
              by (auto simp: list_all_iff)
            then have self: "\<forall>(k, v) \<in> set pm. map_of pm k = Some v" by auto
            from Some dv have look: "map_of D key = Some (VMap dm)" by simp
            from Key [OF ni look pv] u self
            have "issuesOf (restrictTo dm pm) pm (Some (overridesFor ovr key)) (fullKeyOf pre key) ign =
                issuesOf dm pm (Some (overridesFor ovr key)) (fullKeyOf pre key) ign"
              by blast
            with ni look pv q show ?thesis
              by (simp add: keyIssues_eq map_of_restrictTo)
          qed
        qed
      qed
    qed
  qed
qed

text \<open>
  C7. A key that only the defaults tree has plays no part in a run. \<open>restrictTo D P\<close>
  removes from the defaults every key that the provided tree lacks at that place, at every
  level of nesting, also under a key where the provided tree has no mapping at all (the
  second conjunct: no key of the provided tree's lacking is left at any level; the third
  says so for the top level in terms of lookups). A run on the defaults so reduced ends in
  the same state as the run on the full defaults: the same issues and the same flag. So a
  key present only in the defaults is never looked at and never produces an issue; the walk
  follows the keys of the provided tree. (The provided tree's mappings have unique keys, as
  every mapping of the program has.)
\<close>
theorem default_only_keys_never_inspected:
  assumes "uniqueKeys (VMap P)"
  shows "validateChartValues (restrictTo D P) P ovr pre st ign =
      validateChartValues D P ovr pre st ign
    \<and> onlyKeysOf (restrictTo D P) P
    \<and> (\<forall>k. map_of P k = None \<longrightarrow> map_of (restrictTo D P) k = None)"
proof -
  have gone: "\<forall>k. map_of P k = None \<longrightarrow> map_of (restrictTo D P) k = None"
    by (simp add: map_of_restrictTo)
  from assms have "distinct (map fst P)" and u: "\<forall>(k, pv) \<in> set P. uniqueKeys pv"
    by (auto simp: list_all_iff)
  then have "\<forall>(k, pv) \<in> set P. map_of P k = Some pv" by auto
  with u have "issuesOf (restrictTo D P) P ovr pre ign = issuesOf D P ovr pre ign"
    using restrict_aux(1) [of P D ovr pre ign] by blast
  with gone show ?thesis by (simp add: validate_emit onlyKeysOf_restrictTo)
qed

theorem default_only_keys_never_inspected_witness:
  "uniqueKeys (VMap [(''image'', VMap [(''tag'', VString ''v1'')]), (''ports'', VString ''none'')])
   \<and> restrictTo
        [(''replicas'', VInt 1),
         (''image'', VMap [(''tag'', VString ''v1''), (''pull'', VBool True)]),
         (''ports'', VMap [(''http'', VInt 80)])]
        [(''image'', VMap [(''tag'', VString ''v1'')]), (''ports'', VString ''none'')]
      = [(''image'', VMap [(''tag'', VString ''v1'')]), (''ports'', VMap [])]
   \<and> validateChartValues
        [(''replicas'', VInt 1),
         (''image'', VMap [(''tag'', VString ''v1''), (''pull'', VBool True)]),
         (''ports'', VMap [(''http'', VInt 80)])]
        [(''image'', VMap [(''tag'', VString ''v1'')]), (''ports'', VString ''none'')] None ''svc''
        \<lparr>issuesFound = False, printed = []\<rparr> []
      = \<lparr>issuesFound = True,
         printed = [RedundantValue ''svc.image.tag'' (VString ''v1''),
                    ExpectedMap ''svc.ports'' (Some TString)]\<rparr>
   \<and> validateChartValues
        [(''image'', VMap [(''tag'', VString ''v1'')]), (''ports'', VMap [])]
        [(''image'', VMap [(''tag'', VString ''v1'')]), (''ports'', VString ''none'')] None ''svc''
        \<lparr>issuesFound = False, printed = []\<rparr> []
      = \<lparr>issuesFound = True,
         printed = [RedundantValue ''svc.image.tag'' (VString ''v1''),
                    ExpectedMap ''svc.ports'' (Some TString)]\<rparr>"
proof -
  have h: "uniqueKeys (VMap [(''image'', VMap [(''tag'', VString ''v1'')]), (''ports'', VString ''none'')])"
    by simp
  have r: "restrictTo
        [(''replicas'', VInt 1),
         (''image'', VMap [(''tag'', VString ''v1''), (''pull'', VBool True)]),
         (''ports'', VMap [(''http'', VInt 80)])]
        [(''image'', VMap [(''tag'', VString ''v1'')]), (''ports'', VString ''none'')]
      = [(''image'', VMap [(''tag'', VString ''v1'')]), (''ports'', VMap [])]"
    by simp
  have v: "validateChartValues
        [(''image'', VMap [(''tag'', VString ''v1'')]), (''ports'', VMap [])]
        [(''image'', VMap [(''tag'', VString ''v1'')]), (''ports'', VString ''none'')] None ''svc''
        \<lparr>issuesFound = False, printed = []\<rparr> []
      = \<lparr>issuesFound = True,
         printed = [RedundantValue ''svc.image.tag'' (VString ''v1''),
                    ExpectedMap ''svc.ports'' (Some TString)]\<rparr>"
    by (simp add: validateKey.simps fullKeyOf_def DeepEqual.simps report_def)
  show ?thesis
    using h r v
      default_only_keys_never_inspected [OF h,
        of "[(''replicas'', VInt 1),
             (''image'', VMap [(''tag'', VString ''v1''), (''pull'', VBool True)]),
             (''ports'', VMap [(''http'', VInt 80)])]"
        None "''svc''" "\<lparr>issuesFound = False, printed = []\<rparr>" "[]"]
    by simp
qed

lemma keyIssues_nested_reorder:
  assumes "\<And>dm. set (issuesOf dm m ovr' pre' ign) = set (issuesOf dm m' ovr' pre' ign)"
    and "ovr' = Some (overridesFor ovr k)" and "pre' = fullKeyOf pre k"
  shows "set (keyIssues D (k, VMap m) ovr pre ign) = set (keyIssues D (k, VMap m') ovr pre ign)"
proof (cases "map_of D k")
  case None
  then show ?thesis by (simp add: keyIssues_eq)
next
  case (Some dv)
  show ?thesis
  proof (cases "isMap dv")
    case True
    then obtain dm where "dv = VMap dm" by (cases dv) auto
    with Some assms show ?thesis by (simp add: keyIssues_eq)
  next
    case False
    with Some show ?thesis
      by (simp add: keyIssues_eq DeepEqual_scalar_map)
  qed
qed

lemma reordered_issues:
  "reordered P P' \<Longrightarrow> set (issuesOf D P ovr pre ign) = set (issuesOf D P' ovr pre ign)"
proof (induction arbitrary: D ovr pre ign rule: reordered.induct)
  case (same P)
  show ?case ..
next
  case (swap x y P)
  show ?case by (auto simp: issuesOf_Cons)
next
  case (cons P P' kv)
  then show ?case by (simp add: issuesOf_Cons)
next
  case (nest m m' k P)
  have "set (keyIssues D (k, VMap m) ovr pre ign) = set (keyIssues D (k, VMap m') ovr pre ign)"
    by (rule keyIssues_nested_reorder [OF nest.IH refl refl])
  then show ?case by (simp add: issuesOf_Cons)
next
  case (trans P Q R)
  then show ?case by simp
qed

text \<open>
  C9. The outcome of a run does not depend on the order in which the mappings of the provided
  tree are traversed. \<open>reordered P P'\<close> says that \<open>P'\<close> is the tree \<open>P\<close> with the entries of
  its mappings, at any level the walk reaches, listed in another order. Two runs on the
  same defaults, overrides, prefix, ignore list and entry state, one traversing \<open>P\<close> and one
  traversing \<open>P'\<close>, end with the same issues-found flag and the same set of issues (a run
  repeated in the same order is the case \<open>P' = P\<close>).
\<close>
theorem outcome_independent_of_traversal_order:
  assumes "reordered P P'"
  shows "issuesFound (validateChartValues D P ovr pre st ign) =
        issuesFound (validateChartValues D P' ovr pre st ign)
    \<and> set (printed (validateChartValues D P ovr pre st ign)) =
        set (printed (validateChartValues D P' ovr pre st ign))"
proof -
  have s: "set (issuesOf D P ovr pre ign) = set (issuesOf D P' ovr pre ign)"
    using assms by (rule reordered_issues)
  then have "(issuesOf D P ovr pre ign = []) = (issuesOf D P' ovr pre ign = [])"
    by (metis set_empty)
  with s show ?thesis
    by (simp add: validate_emit emit_def)
qed

theorem outcome_independent_of_traversal_order_witness:
  "reordered [(''a'', VInt 1), (''b'', VMap [(''c'', VString ''x''), (''d'', VBool True)])]
       [(''b'', VMap [(''d'', VBool True), (''c'', VString ''x'')]), (''a'', VInt 1)]
   \<and> validateChartValues [(''a'', VInt 1), (''b'', VMap [(''c'', VString ''x''), (''d'', VInt 0)])]
        [(''a'', VInt 1), (''b'', VMap [(''c'', VString ''x''), (''d'', VBool True)])] None ''''
        \<lparr>issuesFound = False, printed = []\<rparr> []
      = \<lparr>issuesFound = True,
         printed = [RedundantValue ''a'' (VInt 1), RedundantValue ''b.c'' (VString ''x''),
                    TypeMismatch ''b.d'' (Some TInt) (Some TBool)]\<rparr>
   \<and> validateChartValues [(''a'', VInt 1), (''b'', VMap [(''c'', VString ''x''), (''d'', VInt 0)])]
        [(''b'', VMap [(''d'', VBool True), (''c'', VString ''x'')]), (''a'', VInt 1)] None ''''
        \<lparr>issuesFound = False, printed = []\<rparr> []
      = \<lparr>issuesFound = True,
         printed = [TypeMismatch ''b.d'' (Some TInt) (Some TBool), RedundantValue ''b.c'' (VString ''x''),
                    RedundantValue ''a'' (VInt 1)]\<rparr>"
proof -
  have inner: "reordered [(''c'', VString ''x''), (''d'', VBool True)] [(''d'', VBool True), (''c'', VString ''x'')]"
    by (rule reordered.swap)
  have "reordered [(''a'', VInt 1), (''b'', VMap [(''c'', VString ''x''), (''d'', VBool True)])]
      [(''b'', VMap [(''c'', VString ''x''), (''d'', VBool True)]), (''a'', VInt 1)]"
    by (rule reordered.swap)
  moreover have "reordered [(''b'', VMap [(''c'', VString ''x''), (''d'', VBool True)]), (''a'', VInt 1)]
      [(''b'', VMap [(''d'', VBool True), (''c'', VString ''x'')]), (''a'', VInt 1)]"
    using inner by (rule reordered.nest)
  ultimately have h: "reordered [(''a'', VInt 1), (''b'', VMap [(''c'', VString ''x''), (''d'', VBool True)])]
       [(''b'', VMap [(''d'', VBool True), (''c'', VString ''x'')]), (''a'', VInt 1)]"
    by (rule reordered.trans)
  have v1: "validateChartValues [(''a'', VInt 1), (''b'', VMap [(''c'', VString ''x''), (''d'', VInt 0)])]
        [(''a'', VInt 1), (''b'', VMap [(''c'', VString ''x''), (''d'', VBool True)])] None ''''
        \<lparr>issuesFound = False, printed = []\<rparr> []
      = \<lparr>issuesFound = True,
         printed = [RedundantValue ''a'' (VInt 1), RedundantValue ''b.c'' (VString ''x''),
                    TypeMismatch ''b.d'' (Some TInt) (Some TBool)]\<rparr>"
    by (simp add: validateKey.simps fullKeyOf_def DeepEqual.simps report_def)
  have v2: "validateChartValues [(''a'', VInt 1), (''b'', VMap [(''c'', VString ''x''), (''d'', VInt 0)])]
        [(''b'', VMap [(''d'', VBool True), (''c'', VString ''x'')]), (''a'', VInt 1)] None ''''
        \<lparr>issuesFound = False, printed = []\<rparr> []
      = \<lparr>issuesFound = True,
         printed = [TypeMismatch ''b.d'' (Some TInt) (Some TBool), RedundantValue ''b.c'' (VString ''x''),
                    RedundantValue ''a'' (VInt 1)]\<rparr>"
    by (simp add: validateKey.simps fullKeyOf_def DeepEqual.simps report_def)
  show ?thesis
    using h v1 v2
      outcome_independent_of_traversal_order [OF h,
        of "[(''a'', VInt 1), (''b'', VMap [(''c'', VString ''x''), (''d'', VInt 0)])]"
        None "''''" "\<lparr>issuesFound = False, printed = []\<rparr>" "[]"]
    by simp
qed

end
